theory Spec2Isabelle
  imports Complex_Main "HOL-Library.Product_Lexorder"
begin

section \<open>JavaScript numbers and arrays\<close>

text \<open>
  The program is TypeScript. Its integer-valued numbers (step counts, indices, rotation
  amounts) are modelled as \<open>int\<close> or \<open>nat\<close>, its fractional numbers (bias, tempo, times)
  as \<open>real\<close>: the rounding of IEEE doubles is not modelled. An array is a list of cells,
  a cell being \<open>None\<close> where JavaScript reads \<open>undefined\<close> (a hole left by
  \<open>new Array(n)\<close>, or an index out of range).
\<close>

definition js_rem :: "int \<Rightarrow> int \<Rightarrow> int" where
  \<comment> \<open>\<open>a % b\<close> for a divisor \<open>b \<noteq> 0\<close>: the remainder takes the sign of the dividend.\<close>
  "js_rem a b = sgn a * (\<bar>a\<bar> mod \<bar>b\<bar>)"

definition js_round :: "real \<Rightarrow> int" where
  \<comment> \<open>\<open>Math.round\<close>: the nearest integer, a tie going up.\<close>
  "js_round x = \<lfloor>x + 1 / 2\<rfloor>"

definition cell_at :: "'a option list \<Rightarrow> nat \<Rightarrow> 'a option" where
  \<comment> \<open>\<open>arr[i]\<close>: reading outside the array gives \<open>undefined\<close>.\<close>
  "cell_at arr i = (if i < length arr then arr ! i else None)"

section \<open>Pattern generation (utils/euclidAlgorithm.ts)\<close>

record EuclidParams =
  steps :: int
  hits :: int
  bias :: real
  rotation :: int

definition rotate_arr :: "'a option list \<Rightarrow> int \<Rightarrow> 'a option list" where
  \<comment> \<open>The source's \<open>rotate\<close>; the loop writes \<open>out[(i + shift) % n] = arr[i]\<close>.\<close>
  "rotate_arr arr amount =
     (let n = length arr in
      if n \<le> 0 then arr
      else
        let shift0 = js_rem amount (int n);
            shift = (if shift0 < 0 then shift0 + int n else shift0) in
        if shift = 0 then arr
        else fold (\<lambda>i out. out[nat (js_rem (int i + shift) (int n)) := cell_at arr i])
               [0..<n] (replicate n None))"

definition countHits :: "int option list \<Rightarrow> nat \<Rightarrow> nat \<Rightarrow> nat" where
  "countHits arr start len =
     fold (\<lambda>i hits. if cell_at arr (start + i) = Some 1 then hits + 1 else hits) [0..<len] 0"

definition distanceToNearestHit ::
  "int option list \<Rightarrow> nat \<Rightarrow> nat \<Rightarrow> nat \<Rightarrow> bool \<Rightarrow> nat" where
  \<comment> \<open>The running minimum starts at \<open>Infinity\<close>, here \<open>None\<close>.\<close>
  "distanceToNearestHit arr index start len excludeSelf =
     (case fold (\<lambda>i m.
              let idx = start + i in
              if cell_at arr idx = Some 1 then
                if excludeSelf \<and> idx = index then m
                else
                  let dist = nat \<bar>int idx - int index\<bar> in
                  (case m of
                     None \<Rightarrow> Some dist
                   | Some d \<Rightarrow> if dist < d then Some dist else m)
              else m)
            [0..<len] None of
        None \<Rightarrow> len
      | Some d \<Rightarrow> d)"

definition rankedHits :: "int option list \<Rightarrow> nat \<Rightarrow> nat \<Rightarrow> nat list" where
  \<comment> \<open>Sorted by ascending score, then ascending index.\<close>
  "rankedHits arr start len =
     map fst
       (sort_key (\<lambda>(idx, score). (score, idx))
          (fold (\<lambda>i hs.
               let idx = start + i in
               if cell_at arr idx = Some 1
               then hs @ [(idx, distanceToNearestHit arr idx start len True)]
               else hs)
             [0..<len] []))"

definition rankedEmpties :: "int option list \<Rightarrow> nat \<Rightarrow> nat \<Rightarrow> nat list" where
  \<comment> \<open>Sorted by descending score, then ascending index.\<close>
  "rankedEmpties arr start len =
     map fst
       (sort_key (\<lambda>(idx, score). (- int score, idx))
          (fold (\<lambda>i es.
               let idx = start + i in
               if cell_at arr idx = Some 0
               then es @ [(idx, distanceToNearestHit arr idx start len False)]
               else es)
             [0..<len] []))"

fun move_hits ::
  "nat \<Rightarrow> nat \<Rightarrow> nat \<Rightarrow> nat \<Rightarrow> nat \<Rightarrow> int option list \<Rightarrow> int option list" where
  \<comment> \<open>The loop \<open>for (i = 0; i < moves; i++)\<close> of \<open>applyHalfBias01\<close>, on the number of
      iterations left; the \<open>break\<close> returns the array as it is.\<close>
  "move_hits 0 sourceStart sourceLen destStart destLen out = out"
| "move_hits (Suc k) sourceStart sourceLen destStart destLen out =
     (let sourceHits = rankedHits out sourceStart sourceLen;
          destEmpties = rankedEmpties out destStart destLen in
      if sourceHits = [] \<or> destEmpties = [] then out
      else
        let sourceIndex = hd sourceHits;
            destIndex = hd destEmpties in
        move_hits k sourceStart sourceLen destStart destLen
          (out[sourceIndex := Some 0, destIndex := Some 1]))"

definition applyHalfBias01 :: "int option list \<Rightarrow> real \<Rightarrow> int option list" where
  "applyHalfBias01 arr bias01 =
     (let n = length arr;
          half = n div 2;
          hits = countHits arr 0 n;
          frontRatio = 1 - bias01;
          targetFront = js_round (real hits * frontRatio);
          out = arr;
          frontHits = countHits out 0 half in
      if int frontHits = targetFront then out
      else
        let sourceStart = (if int frontHits > targetFront then 0 else half);
            sourceLen = (if int frontHits > targetFront then half else n - half);
            destStart = (if int frontHits > targetFront then half else 0);
            destLen = (if int frontHits > targetFront then n - half else half);
            moves = nat \<bar>int frontHits - targetFront\<bar> in
        move_hits moves sourceStart sourceLen destStart destLen out)"

definition generateEuclidPattern :: "EuclidParams \<Rightarrow> bool list" where
  "generateEuclidPattern params =
     (let steps = EuclidParams.steps params;
          hits = EuclidParams.hits params;
          bias = EuclidParams.bias params;
          rotation = EuclidParams.rotation params in
      if steps \<le> 0 \<or> hits < 0 \<or> hits > steps then
        (let length = max 0 steps in replicate (nat length) False)
      else
        let result0 = map (\<lambda>i. if js_rem (int i * hits) steps < hits
                                then Some (1::int) else Some 0) [0..<nat steps];
            result1 = (if bias \<noteq> 1 / 2 then applyHalfBias01 result0 bias else result0);
            result2 = (if rotation \<noteq> 0 then rotate_arr result1 rotation else result1) in
        map (\<lambda>v. v = Some 1) result2)"

subsection \<open>The earlier bias redistribution\<close>

text \<open>
  The history of the file holds an earlier \<open>applyHalfBias01\<close>, which rebuilds the array
  from the centre of each half outwards. It is modelled under the name
  \<open>applyHalfBias01_center\<close>; its two placement loops and its fallback loop are
  \<open>place_hits\<close> and \<open>fill_remaining\<close>.
\<close>

definition centerOrder :: "nat \<Rightarrow> nat \<Rightarrow> nat list" where
  \<comment> \<open>The indices \<open>start .. start + len - 1\<close> by ascending distance from the centre of the
      range, then ascending index.\<close>
  "centerOrder start len =
     (if len \<le> 0 then []
      else
        let center = real start + (real len - 1) / 2 in
        map fst
          (sort_key (\<lambda>(idx, d). (d, idx))
             (map (\<lambda>i. let idx = start + i in (idx, \<bar>real idx - center\<bar>)) [0..<len])))"

fun place_hits ::
  "nat list \<Rightarrow> int \<Rightarrow> int option list \<times> nat \<Rightarrow> int option list \<times> nat" where
  \<comment> \<open>\<open>for (a = 0; a < order.length && placed < limit; a++) { out[order[a]] = 1; placed++ }\<close>\<close>
  "place_hits [] limit (out, placed) = (out, placed)"
| "place_hits (i # order) limit (out, placed) =
     (if int placed < limit then place_hits order limit (out[i := Some 1], placed + 1)
      else (out, placed))"

fun fill_remaining ::
  "nat list \<Rightarrow> nat \<Rightarrow> int option list \<times> nat \<Rightarrow> int option list \<times> nat" where
  \<comment> \<open>\<open>for (i = 0; i < n && placed < hits; i++) if (out[i] === 0) { out[i] = 1; placed++ }\<close>\<close>
  "fill_remaining [] wanted (out, placed) = (out, placed)"
| "fill_remaining (i # rest) wanted (out, placed) =
     (if placed < wanted then
        (if cell_at out i = Some 0
         then fill_remaining rest wanted (out[i := Some 1], placed + 1)
         else fill_remaining rest wanted (out, placed))
      else (out, placed))"

definition applyHalfBias01_center :: "int option list \<Rightarrow> real \<Rightarrow> int option list" where
  \<comment> \<open>The earlier \<open>applyHalfBias01\<close> of the file's history: clear all, then place the
      hits from the centre of each half outwards.\<close>
  "applyHalfBias01_center arr bias01 =
     (let n = length arr;
          half = n div 2;
          hits = fold (\<lambda>i h. if cell_at arr i = Some 1 then h + 1 else h) [0..<n] 0;
          frontRatio = 1 - bias01;
          targetFront = js_round (real hits * frontRatio);
          frontOrder = centerOrder 0 half;
          backOrder = centerOrder half (n - half);
          s0 = (replicate n (Some 0), 0);
          s1 = place_hits frontOrder targetFront s0;
          s2 = place_hits backOrder (int hits) s1;
          s3 = (if snd s2 < hits then fill_remaining [0..<n] hits s2 else s2) in
      fst s3)"

definition hit_indices :: "bool list \<Rightarrow> nat list" where
  \<comment> \<open>The positions of a pattern that hold \<open>true\<close>, in ascending order.\<close>
  "hit_indices p = filter (\<lambda>i. p ! i) [0..<length p]"

section \<open>Cycle alignment (hooks/useAudio.ts)\<close>

text \<open>The field \<open>track_id\<close> is the source's \<open>id\<close>.\<close>

record Track =
  track_id :: string
  name :: string
  steps :: int
  hits :: int
  bias :: real
  rotation :: int
  volume :: real
  muted :: bool
  solo :: bool
  pattern :: "bool list"
  color :: string

function gcd_loop :: "int \<Rightarrow> int \<Rightarrow> int" where
  \<comment> \<open>\<open>while (y !== 0) { temp = y; y = x % y; x = temp; }\<close>, returning \<open>x\<close>.\<close>
  "gcd_loop x y = (if y \<noteq> 0 then gcd_loop y (js_rem x y) else x)"
  by pat_completeness auto
termination
proof (relation "measure (\<lambda>(x, y). nat \<bar>y\<bar>)")
  show "wf (measure (\<lambda>(x, y). nat \<bar>y\<bar>))" by simp
next
  fix x y :: int
  assume "y \<noteq> 0"
  then have "\<bar>y\<bar> > 0" by simp
  then have "\<bar>x\<bar> mod \<bar>y\<bar> < \<bar>y\<bar>" by (rule pos_mod_bound)
  moreover have "0 \<le> \<bar>x\<bar> mod \<bar>y\<bar>" using \<open>\<bar>y\<bar> > 0\<close> by (rule pos_mod_sign)
  ultimately have "\<bar>js_rem x y\<bar> < \<bar>y\<bar>"
    using \<open>y \<noteq> 0\<close> by (simp add: js_rem_def abs_mult abs_sgn_eq)
  then show "((y, js_rem x y), (x, y)) \<in> measure (\<lambda>(x, y). nat \<bar>y\<bar>)" by simp
qed

declare gcd_loop.simps [simp del]

definition gcd_js :: "int \<Rightarrow> int \<Rightarrow> int" where
  \<comment> \<open>The source's \<open>gcd\<close>; \<open>x || 1\<close> turns a result \<open>0\<close> into \<open>1\<close>.\<close>
  "gcd_js a b = (let x = gcd_loop \<bar>a\<bar> \<bar>b\<bar> in if x = 0 then 1 else x)"

definition lcm_js :: "int \<Rightarrow> int \<Rightarrow> int" where
  \<comment> \<open>The source's \<open>lcm\<close>, \<open>Math.abs(a * b) / gcd(a, b)\<close>: the quotient is exact.\<close>
  "lcm_js a b = \<bar>a * b\<bar> div gcd_js a b"

fun split_js :: "char \<Rightarrow> string \<Rightarrow> string list" where
  \<comment> \<open>\<open>s.split(c)\<close>: the pieces between the separators; a string without separator
      is one piece.\<close>
  "split_js c [] = [[]]"
| "split_js c (x # xs) =
     (if x = c then [] # split_js c xs
      else (case split_js c xs of
              [] \<Rightarrow> [[x]]
            | w # ws \<Rightarrow> (x # w) # ws))"

definition is_space :: "char \<Rightarrow> bool" where
  \<comment> \<open>The white space that \<open>parseInt\<close> skips, among the code units below 256 that a
      \<open>char\<close> holds: tab, line feed, vertical tab, form feed, carriage return, space and
      the no-break space U+00A0.\<close>
  "is_space c =
     (c \<in> set [CHR 0x09, CHR 0x0A, CHR 0x0B, CHR 0x0C, CHR 0x0D, CHR '' '', CHR 0xA0])"

definition is_digit :: "char \<Rightarrow> bool" where
  "is_digit c = (c \<in> set ''0123456789'')"

definition digit_val :: "char \<Rightarrow> int" where
  "digit_val c = int (of_char c) - int (of_char CHR ''0'')"

definition parseInt10 :: "string option \<Rightarrow> int option" where
  \<comment> \<open>\<open>parseInt(s, 10)\<close>: skip leading white space, read a sign, read the longest run of
      decimal digits, ignore the rest. \<open>NaN\<close> (no digit, or \<open>s\<close> undefined) is \<open>None\<close>.\<close>
  "parseInt10 str =
     (case str of
        None \<Rightarrow> None
      | Some s \<Rightarrow>
          let s1 = dropWhile is_space s;
              sign = (case s1 of c # _ \<Rightarrow> if c = CHR ''-'' then - 1 else 1 | [] \<Rightarrow> (1::int));
              s2 = (case s1 of
                      c # r \<Rightarrow> if c = CHR ''-'' \<or> c = CHR ''+'' then r else s1
                    | [] \<Rightarrow> s1);
              ds = takeWhile is_digit s2 in
          if ds = [] then None
          else Some (sign * foldl (\<lambda>acc c. acc * 10 + digit_val c) 0 ds))"

definition parseTimeSignature :: "string \<Rightarrow> (int \<times> int) option" where
  "parseTimeSignature timeSignature =
     (let parts = split_js CHR ''/'' timeSignature;
          numeratorStr = (case parts of [] \<Rightarrow> None | a # _ \<Rightarrow> Some a);
          denominatorStr = (case parts of a # b # _ \<Rightarrow> Some b | _ \<Rightarrow> None) in
      case (parseInt10 numeratorStr, parseInt10 denominatorStr) of
        (Some numerator, Some denominator) \<Rightarrow>
          if denominator = 0 then None else Some (numerator, denominator)
      | _ \<Rightarrow> None)"

definition timeSignatureToSteps :: "string \<Rightarrow> int" where
  "timeSignatureToSteps timeSignature =
     (case parseTimeSignature timeSignature of
        None \<Rightarrow> 16
      | Some (numerator, denominator) \<Rightarrow>
          let stepsPerBeat = max 1 \<lfloor>(16::real) / of_int denominator\<rfloor> in
          max 1 (numerator * stepsPerBeat))"

definition calculateCycleLength :: "Track list \<Rightarrow> string \<Rightarrow> int" where
  \<comment> \<open>\<open>Number.isFinite\<close> holds of every \<open>int\<close>; \<open>filter(Boolean)\<close> keeps the non-zero
      numbers; \<open>reduce\<close> without an initial value starts from the first element.\<close>
  "calculateCycleLength tracks timeSignature =
     (let trackSteps = filter (\<lambda>steps. steps > 0) (map Track.steps tracks);
          signatureSteps = timeSignatureToSteps timeSignature;
          lengths = filter (\<lambda>v. v \<noteq> 0) (trackSteps @ [signatureSteps]) in
      if length lengths = 0 then 16
      else foldl lcm_js (hd lengths) (tl lengths))"

text \<open>
  The decimal numeral of an integer, as it is written in a time signature \<open>N/D\<close>: the
  notation the statements about parsing are made in, not a function of the program.
\<close>

definition digit_char :: "nat \<Rightarrow> char" where
  "digit_char d = ''0123456789'' ! d"

fun nat_digits :: "nat \<Rightarrow> string" where
  "nat_digits n = (if n < 10 then [digit_char n] else nat_digits (n div 10) @ [digit_char (n mod 10)])"

declare nat_digits.simps [simp del]

definition decimal :: "int \<Rightarrow> string" where
  "decimal i = (if i < 0 then CHR ''-'' # nat_digits (nat (- i)) else nat_digits (nat i))"


section \<open>Transport scheduler (hooks/useAudio.ts)\<close>

record TransportState =
  isPlaying :: bool
  bpm :: real
  swing :: real
  timeSignature :: string
  currentStep :: int

record Scheduler =
  currentStepRef :: int
  nextTimeRef :: real
  cycleLengthRef :: int

type_synonym trigger = "string \<times> real \<times> real"

definition nextStep :: "TransportState \<Rightarrow> Scheduler \<Rightarrow> Scheduler" where
  "nextStep transport st =
     (let bpm = max 40 (min 300 (TransportState.bpm transport));
          swing = max 0 (min (30 / 100) ((TransportState.swing transport / 100) * (30 / 100)));
          base = 60 / bpm / 4;
          even = (js_rem (currentStepRef st) 2 = 0);
          interval = base * (if even then 1 + swing else 1 - swing);
          st1 = st\<lparr>nextTimeRef := nextTimeRef st + interval\<rparr>;
          cycle = max 1 (cycleLengthRef st1) in
      st1\<lparr>currentStepRef := js_rem (currentStepRef st1 + 1) cycle\<rparr>)"

definition triggerDrumSound ::
  "bool \<Rightarrow> string \<Rightarrow> real \<Rightarrow> real \<Rightarrow> trigger list \<Rightarrow> trigger list" where
  \<comment> \<open>\<open>sent\<close> is the sequence of calls of \<open>DrumMachine.trigger\<close> made so far; without a
      drum machine the call is dropped.\<close>
  "triggerDrumSound drumMachine trackId vol time sent =
     (if drumMachine then sent @ [(trackId, vol, time)] else sent)"

definition pattern_at :: "bool list \<Rightarrow> int option \<Rightarrow> bool" where
  \<comment> \<open>\<open>track.pattern[stepInPattern]\<close> as a condition: \<open>undefined\<close> (index \<open>NaN\<close>, negative
      or past the end) is falsy.\<close>
  "pattern_at p idx =
     (case idx of
        None \<Rightarrow> False
      | Some i \<Rightarrow> 0 \<le> i \<and> nat i < length p \<and> p ! nat i)"

definition schedule ::
  "bool \<Rightarrow> Track list \<Rightarrow> real \<Rightarrow> int \<Rightarrow> real \<Rightarrow> trigger list" where
  \<comment> \<open>\<open>now\<close> is the reading of \<open>Tone.now()\<close>; the result is the sequence of calls of
      \<open>DrumMachine.trigger\<close>. \<open>step % 0\<close> is \<open>NaN\<close>, here \<open>None\<close>.\<close>
  "schedule drumMachine tracks now step time =
     (let t = max time (now + 1 / 1000);
          hasSolo = list_ex Track.solo tracks in
      fold (\<lambda>track sent.
          let stepInPattern =
                (if Track.steps track = 0 then None
                 else Some (js_rem step (Track.steps track)));
              shouldPlay = (\<not> muted track \<and> pattern_at (pattern track) stepInPattern
                            \<and> (\<not> hasSolo \<or> solo track)) in
          if shouldPlay then
            (let volume = Track.volume track / 100 in
             triggerDrumSound drumMachine (track_id track) volume t sent)
          else sent)
        tracks [])"

section \<open>Rotation is a circular shift\<close>

lemma js_rem_nonneg: "0 \<le> a \<Longrightarrow> 0 < b \<Longrightarrow> js_rem a b = a mod b"
  by (cases "a = 0") (simp_all add: js_rem_def)

lemma js_shift_normalised:
  assumes "0 < n"
  shows "(if js_rem a n < 0 then js_rem a n + n else js_rem a n) = a mod n"
proof (cases "0 \<le> a")
  case True
  then have r: "js_rem a n = a mod n" using assms by (simp add: js_rem_nonneg)
  have "\<not> a mod n < 0" using assms by (simp add: not_less)
  then show ?thesis by (simp add: r)
next
  case False
  then have neg: "a < 0" by simp
  then have r: "js_rem a n = - ((- a) mod n)"
    using assms by (simp add: js_rem_def)
  show ?thesis
  proof (cases "a mod n = 0")
    case True
    then show ?thesis using r assms by (simp add: zmod_zminus1_eq_if)
  next
    case False
    moreover have "a mod n < n" using assms by simp
    moreover have "0 \<le> a mod n" using assms by simp
    ultimately show ?thesis using r assms by (simp add: zmod_zminus1_eq_if)
  qed
qed

lemma add_mod_small:
  "x < n \<Longrightarrow> s < n \<Longrightarrow> (x + s) mod n = (if x + s < n then x + s else x + s - n)"
  for x s n :: nat
  by (simp add: mod_if)

lemma fold_update_length:
  "length (fold (\<lambda>i out. out[f i := g i]) is out) = length out"
  by (induction "is" arbitrary: out) simp_all

lemma fold_update_nth:
  assumes "inj_on f {..<m}" and "i < m" and "f i < length out"
  shows "fold (\<lambda>i out. out[f i := g i]) [0..<m] out ! f i = g i"
  using assms
proof (induction m)
  case 0
  then show ?case by simp
next
  case (Suc m)
  show ?case
  proof (cases "i = m")
    case True
    then show ?thesis using Suc.prems by (simp add: fold_update_length)
  next
    case False
    then have im: "i < m" using Suc.prems by simp
    have inj: "inj_on f {..<m}"
      using Suc.prems(1) by (rule inj_on_subset) auto
    have ne: "f m \<noteq> f i"
      using inj_onD [OF Suc.prems(1), of m i] im by auto
    show ?thesis
      using Suc.IH [OF inj im Suc.prems(3)] ne by simp
  qed
qed

lemma rotate_arr_rotate:
  "rotate_arr arr amount =
     rotate (nat (int (length arr) - amount mod int (length arr))) arr"
proof (cases "arr = []")
  case True
  then show ?thesis by (simp add: rotate_arr_def)
next
  case False
  define n where "n = length arr"
  have n: "0 < n" using False by (simp add: n_def)
  define s where "s = nat (amount mod int n)"
  have s: "int s = amount mod int n" "s < n"
    using n by (simp_all add: s_def nat_less_iff)
  have norm: "(if js_rem amount (int n) < 0 then js_rem amount (int n) + int n
               else js_rem amount (int n)) = int s"
    using js_shift_normalised [of "int n" amount] n s by simp
  have unfold: "rotate_arr arr amount =
      (if s = 0 then arr
       else fold (\<lambda>i out. out[nat (js_rem (int i + int s) (int n)) := cell_at arr i])
              [0..<n] (replicate n None))"
    using n unfolding rotate_arr_def Let_def n_def [symmetric] norm by simp
  show ?thesis
  proof (cases "s = 0")
    case True
    then show ?thesis
      using unfold s by (simp add: n_def)
  next
    case False
    let ?f = "\<lambda>i. nat (js_rem (int i + int s) (int n))"
    let ?out = "fold (\<lambda>i out. out[?f i := cell_at arr i]) [0..<n] (replicate n None)"
    have f: "?f i = (i + s) mod n" for i
      using n by (simp add: js_rem_nonneg nat_mod_as_int)
    have inj: "inj_on ?f {..<n}"
    proof (rule inj_onI)
      fix x y assume xy: "x \<in> {..<n}" "y \<in> {..<n}" "?f x = ?f y"
      then have "(x + s) mod n = (y + s) mod n" by (simp only: f)
      then show "x = y"
        using xy s by (simp add: add_mod_small split: if_splits)
    qed
    have eq: "rotate_arr arr amount = ?out"
      using unfold False by simp
    have len: "length ?out = n" by (simp add: fold_update_length)
    have "?out = rotate (n - s) arr"
    proof (rule nth_equalityI)
      show "length ?out = length (rotate (n - s) arr)"
        by (simp add: fold_update_length n_def)
    next
      fix j assume "j < length ?out"
      then have j: "j < n" by (simp add: len)
      define i where "i = (n - s + j) mod n"
      have i: "i < n" using n by (simp add: i_def)
      have "?f i = (n - s + j + s) mod n"
        unfolding f i_def by (simp add: mod_add_left_eq)
      also have "\<dots> = j" using s j by simp
      finally have fi: "?f i = j" .
      have "?out ! ?f i = cell_at arr i"
        by (rule fold_update_nth [OF inj i]) (simp add: fi j)
      then have "?out ! j = cell_at arr i" by (simp only: fi)
      then have "?out ! j = arr ! i" using i by (simp add: cell_at_def n_def)
      then show "?out ! j = rotate (n - s) arr ! j"
        using j by (simp add: nth_rotate i_def n_def)
    qed
    moreover have "nat (int n - amount mod int n) = n - s"
      using s by linarith
    ultimately show ?thesis
      using eq by (simp add: n_def)
  qed
qed

lemma rotate_arr_conv:
  assumes "arr \<noteq> []"
  shows "rotate_arr arr amount = rotate (nat ((- amount) mod int (length arr))) arr"
proof -
  define n where "n = int (length arr)"
  have n: "0 < n" using assms by (simp add: n_def)
  have m: "0 \<le> amount mod n" "amount mod n < n" using n by simp_all
  have "nat (n - amount mod n) mod length arr = nat ((- amount) mod n)"
  proof (cases "amount mod n = 0")
    case True
    then show ?thesis using n by (simp add: zmod_zminus1_eq_if n_def)
  next
    case False
    then have "nat (n - amount mod n) < length arr" using m n unfolding n_def by linarith
    then show ?thesis using False by (simp add: zmod_zminus1_eq_if)
  qed
  then show ?thesis
    using rotate_conv_mod [of "nat (n - amount mod n)" arr]
    by (simp add: rotate_arr_rotate n_def)
qed

lemma length_rotate_arr: "length (rotate_arr arr amount) = length arr"
  by (simp add: rotate_arr_rotate)

lemma rotate_arr_compose:
  "rotate_arr (rotate_arr arr a) b = rotate_arr arr ((a + b) mod int (length arr))"
proof (cases "arr = []")
  case True
  then show ?thesis by (simp add: rotate_arr_def)
next
  case False
  define n where "n = int (length arr)"
  have n: "0 < n" using False by (simp add: n_def)
  have ne: "rotate_arr arr a \<noteq> []"
    using False length_rotate_arr [of arr a] by auto
  have nn: "0 \<le> (- a) mod n" "0 \<le> (- b) mod n" using n by simp_all
  have "int ((nat ((- b) mod n) + nat ((- a) mod n)) mod length arr)
          = ((- b) mod n + (- a) mod n) mod n"
    using nn by (simp add: zmod_int n_def)
  also have "\<dots> = (- b + - a) mod n" by (simp add: mod_add_eq)
  also have "\<dots> = (- (a + b)) mod n" by (simp add: add.commute)
  also have "\<dots> = (- ((a + b) mod n)) mod n" by (simp add: mod_minus_eq)
  finally have key: "(nat ((- b) mod n) + nat ((- a) mod n)) mod length arr
                       = nat ((- ((a + b) mod n)) mod n)"
    by linarith
  have "rotate_arr (rotate_arr arr a) b = rotate (nat ((- b) mod n)) (rotate_arr arr a)"
    using rotate_arr_conv [OF ne, of b] by (simp only: length_rotate_arr n_def)
  also have "\<dots> = rotate (nat ((- b) mod n)) (rotate (nat ((- a) mod n)) arr)"
    by (simp only: rotate_arr_conv [OF False, of a] n_def)
  also have "\<dots> = rotate (nat ((- b) mod n) + nat ((- a) mod n)) arr"
    by (simp add: rotate_rotate)
  also have "\<dots> = rotate (nat ((- ((a + b) mod n)) mod n)) arr"
    using rotate_conv_mod [of "nat ((- b) mod n) + nat ((- a) mod n)" arr] key by simp
  also have "\<dots> = rotate_arr arr ((a + b) mod n)"
    by (simp add: rotate_arr_conv [OF False] n_def)
  finally show ?thesis by (simp add: n_def)
qed

lemma rotate_arr_full: "rotate_arr arr (int (length arr)) = arr"
  by (cases "arr = []") (simp_all add: rotate_arr_conv, simp add: rotate_arr_def)

lemma length_filter_rotate: "length (filter P (rotate k xs)) = length (filter P xs)"
proof -
  have "length (filter P (take m xs)) + length (filter P (drop m xs)) = length (filter P xs)"
    for m by (metis append_take_drop_id filter_append length_append)
  then show ?thesis by (simp add: rotate_drop_take add.commute)
qed

lemma fold_count:
  "fold (\<lambda>i h. if P i then h + 1 else h) xs (a::nat) = a + length (filter P xs)"
  by (induction xs arbitrary: a) simp_all

lemma countHits_filter:
  "countHits arr start len = length (filter (\<lambda>i. cell_at arr (start + i) = Some 1) [0..<len])"
  by (simp add: countHits_def fold_count)

lemma length_filter_nth:
  "length (filter (\<lambda>i. P (xs ! i)) [0..<length xs]) = length (filter P xs)"
proof -
  have "length (filter P (map ((!) xs) [0..<length xs])) = length (filter P xs)"
    by (simp only: map_nth)
  then show ?thesis by (simp add: filter_map comp_def)
qed

lemma countHits_all:
  "countHits arr 0 (length arr) = length (filter (\<lambda>c. c = Some 1) arr)"
proof -
  have "filter (\<lambda>i. cell_at arr i = Some 1) [0..<length arr]
          = filter (\<lambda>i. arr ! i = Some 1) [0..<length arr]"
    by (rule filter_cong) (simp_all add: cell_at_def)
  then show ?thesis
    using length_filter_nth [of "\<lambda>c. c = Some 1" arr] by (simp add: countHits_filter)
qed

lemma countHits_rotate_arr:
  "countHits (rotate_arr arr a) 0 (length arr) = countHits arr 0 (length arr)"
  using countHits_all [of "rotate_arr arr a"]
  by (simp add: length_rotate_arr countHits_all rotate_arr_rotate length_filter_rotate)

section \<open>Bias redistribution moves hits, one at a time\<close>

lemma fold_collect:
  "fold (\<lambda>i acc. if P i then acc @ [g i] else acc) xs acc = acc @ map g (filter P xs)"
  by (induction xs arbitrary: acc) simp_all

lemma set_rankedHits:
  "set (rankedHits arr start len) = {idx. start \<le> idx \<and> idx < start + len \<and> cell_at arr idx = Some 1}"
proof -
  have "set (rankedHits arr start len)
          = (\<lambda>i. start + i) ` {i. i < len \<and> cell_at arr (start + i) = Some 1}"
    by (simp add: rankedHits_def Let_def fold_collect image_image)
  also have "\<dots> = {idx. start \<le> idx \<and> idx < start + len \<and> cell_at arr idx = Some 1}"
  proof (rule set_eqI)
    fix idx
    have "idx = start + (idx - start)" if "start \<le> idx" using that by simp
    then show "idx \<in> (\<lambda>i. start + i) ` {i. i < len \<and> cell_at arr (start + i) = Some 1}
             \<longleftrightarrow> idx \<in> {idx. start \<le> idx \<and> idx < start + len \<and> cell_at arr idx = Some 1}"
      by (auto simp: image_iff intro!: exI [of _ "idx - start"])
  qed
  finally show ?thesis .
qed

lemma set_rankedEmpties:
  "set (rankedEmpties arr start len) = {idx. start \<le> idx \<and> idx < start + len \<and> cell_at arr idx = Some 0}"
proof -
  have "set (rankedEmpties arr start len)
          = (\<lambda>i. start + i) ` {i. i < len \<and> cell_at arr (start + i) = Some 0}"
    by (simp add: rankedEmpties_def Let_def fold_collect image_image)
  also have "\<dots> = {idx. start \<le> idx \<and> idx < start + len \<and> cell_at arr idx = Some 0}"
  proof (rule set_eqI)
    fix idx
    have "idx = start + (idx - start)" if "start \<le> idx" using that by simp
    then show "idx \<in> (\<lambda>i. start + i) ` {i. i < len \<and> cell_at arr (start + i) = Some 0}
             \<longleftrightarrow> idx \<in> {idx. start \<le> idx \<and> idx < start + len \<and> cell_at arr idx = Some 0}"
      by (auto simp: image_iff intro!: exI [of _ "idx - start"])
  qed
  finally show ?thesis .
qed

lemma length_filter_update:
  "i < length xs \<Longrightarrow>
     length (filter P (xs[i := v])) + (if P (xs ! i) then 1 else 0)
       = length (filter P xs) + (if P v then 1 else 0)"
proof (induction xs arbitrary: i)
  case Nil
  then show ?case by simp
next
  case (Cons x xs)
  then show ?case by (cases i) auto
qed

lemma move_one_count:
  assumes "cell_at out s = Some 1" and "cell_at out d = Some 0"
  shows "length (filter (\<lambda>c. c = Some 1) (out[s := Some 0, d := Some 1]))
           = length (filter (\<lambda>c. c = Some (1::int)) out)"
proof -
  have s: "s < length out" "out ! s = Some 1"
    using assms(1) by (auto simp: cell_at_def split: if_splits)
  have d: "d < length out" "out ! d = Some 0"
    using assms(2) by (auto simp: cell_at_def split: if_splits)
  have sd: "s \<noteq> d" using s d by auto
  have 1: "length (filter (\<lambda>c. c = Some 1) (out[s := Some 0])) + 1
             = length (filter (\<lambda>c. c = Some (1::int)) out)"
    using length_filter_update [OF s(1), of "\<lambda>c. c = Some 1" "Some 0"] s(2) by simp
  have "(out[s := Some 0]) ! d = Some 0" using d sd by simp
  then have 2: "length (filter (\<lambda>c. c = Some 1) (out[s := Some 0, d := Some 1]))
             = length (filter (\<lambda>c. c = Some (1::int)) (out[s := Some 0])) + 1"
    using length_filter_update [of d "out[s := Some 0]" "\<lambda>c. c = Some 1" "Some 1"] d(1)
    by simp
  show ?thesis using 1 2 by simp
qed

lemma move_hits_length:
  "length (move_hits k ss sl ds dl out) = length out"
  by (induction k arbitrary: out) (simp_all add: Let_def)

lemma move_hits_count:
  "length (filter (\<lambda>c. c = Some 1) (move_hits k ss sl ds dl out))
     = length (filter (\<lambda>c. c = Some 1) out)"
proof (induction k arbitrary: out)
  case 0
  then show ?case by simp
next
  case (Suc k)
  show ?case
  proof (cases "rankedHits out ss sl = [] \<or> rankedEmpties out ds dl = []")
    case True
    then show ?thesis by (auto simp: Let_def)
  next
    case False
    then have "hd (rankedHits out ss sl) \<in> set (rankedHits out ss sl)"
      and "hd (rankedEmpties out ds dl) \<in> set (rankedEmpties out ds dl)"
      by simp_all
    then have "cell_at out (hd (rankedHits out ss sl)) = Some 1"
      and "cell_at out (hd (rankedEmpties out ds dl)) = Some 0"
      by (simp_all add: set_rankedHits set_rankedEmpties)
    then show ?thesis
      using False Suc.IH by (simp add: Let_def move_one_count)
  qed
qed

lemma applyHalfBias01_length: "length (applyHalfBias01 arr bias01) = length arr"
  by (simp add: applyHalfBias01_def Let_def move_hits_length)

lemma applyHalfBias01_count:
  "length (filter (\<lambda>c. c = Some 1) (applyHalfBias01 arr bias01))
     = length (filter (\<lambda>c. c = Some 1) arr)"
  by (simp add: applyHalfBias01_def Let_def move_hits_count)

subsection \<open>The earlier variant\<close>

lemma centerOrder_set: "set (centerOrder start len) = {start..<start + len}"
proof (cases "len \<le> 0")
  case True
  then show ?thesis by (simp add: centerOrder_def)
next
  case False
  have "(\<lambda>i. start + i) ` {0..<len} = {start..<start + len}"
    by (metis add.commute add_0 image_add_atLeastLessThan)
  then show ?thesis
    using False by (simp add: centerOrder_def Let_def image_image)
qed

lemma centerOrder_distinct: "distinct (centerOrder start len)"
proof (cases "len \<le> 0")
  case True
  then show ?thesis by (simp add: centerOrder_def)
next
  case False
  define center where "center = real start + (real len - 1) / 2"
  define xs where "xs = map (\<lambda>i. (start + i, \<bar>real (start + i) - center\<bar>)) [0..<len]"
  have "map fst xs = map (\<lambda>i. start + i) [0..<len]" by (simp add: xs_def comp_def)
  moreover have "distinct (map (\<lambda>i. start + i) [0..<len])"
    by (simp add: distinct_map inj_on_def)
  ultimately have "distinct (map fst xs)" by simp
  then have "distinct (map fst (sort_key (\<lambda>(idx, d). (d, idx)) xs))"
    by (metis distinct_map distinct_sort set_sort)
  then show ?thesis
    using False by (simp add: centerOrder_def Let_def xs_def center_def)
qed

lemma place_hits_inv:
  assumes "distinct order" and "\<forall>i \<in> set order. i < length out \<and> out ! i = Some 0"
    and "place_hits order limit (out, placed) = (out', placed')"
  shows "length out' = length out
    \<and> length (filter (\<lambda>c. c = Some 1) out') + placed
        = length (filter (\<lambda>c. c = Some 1) out) + placed'
    \<and> placed \<le> placed'
    \<and> int placed' \<le> max (int placed) limit
    \<and> (\<forall>j. j \<notin> set order \<longrightarrow> out' ! j = out ! j)"
  using assms
proof (induction order arbitrary: out placed)
  case Nil
  then show ?case by simp
next
  case (Cons i order)
  show ?case
  proof (cases "int placed < limit")
    case False
    then show ?thesis using Cons.prems by simp
  next
    case True
    let ?out = "out[i := Some 1]"
    have i: "i < length out" "out ! i = Some 0" "i \<notin> set order"
      using Cons.prems by simp_all
    have rec: "place_hits order limit (?out, placed + 1) = (out', placed')"
      using Cons.prems(3) True by simp
    have pre: "\<forall>k \<in> set order. k < length ?out \<and> ?out ! k = Some 0"
      using Cons.prems(2) i(3) by (auto simp: nth_list_update)
    have d: "distinct order" using Cons.prems(1) by simp
    note ih = Cons.IH [OF d pre rec]
    have one: "length (filter (\<lambda>c. c = Some 1) ?out)
                 = length (filter (\<lambda>c. c = Some (1::int)) out) + 1"
      using length_filter_update [OF i(1), of "\<lambda>c. c = Some 1" "Some 1"] i(2) by simp
    have "\<forall>j. j \<notin> set (i # order) \<longrightarrow> out' ! j = out ! j"
      using ih by (auto simp: nth_list_update)
    then show ?thesis
      using ih one True by auto
  qed
qed

lemma fill_remaining_inv:
  assumes "fill_remaining rest wanted (out, placed) = (out', placed')"
  shows "length out' = length out
    \<and> length (filter (\<lambda>c. c = Some 1) out') + placed
        = length (filter (\<lambda>c. c = Some 1) out) + placed'"
  using assms
proof (induction rest arbitrary: out placed)
  case Nil
  then show ?case by simp
next
  case (Cons i rest)
  show ?case
  proof (cases "placed < wanted \<and> cell_at out i = Some 0")
    case False
    then show ?thesis
      using Cons.prems Cons.IH [of out placed] by (auto split: if_splits)
  next
    case True
    let ?out = "out[i := Some 1]"
    have i: "i < length out" "out ! i = Some 0"
      using True by (auto simp: cell_at_def split: if_splits)
    have rec: "fill_remaining rest wanted (?out, placed + 1) = (out', placed')"
      using Cons.prems True by simp
    have one: "length (filter (\<lambda>c. c = Some 1) ?out)
                 = length (filter (\<lambda>c. c = Some (1::int)) out) + 1"
      using length_filter_update [OF i(1), of "\<lambda>c. c = Some 1" "Some 1"] i(2) by simp
    show ?thesis
      using Cons.IH [OF rec] one by auto
  qed
qed

lemma fill_remaining_reaches:
  assumes "distinct rest" and "placed \<le> wanted"
    and "wanted - placed \<le> length (filter (\<lambda>i. cell_at out i = Some 0) rest)"
  shows "snd (fill_remaining rest wanted (out, placed)) = wanted"
  using assms
proof (induction rest arbitrary: out placed)
  case Nil
  then show ?case by simp
next
  case (Cons i rest)
  show ?case
  proof (cases "placed < wanted")
    case False
    then show ?thesis using Cons.prems by simp
  next
    case True
    show ?thesis
    proof (cases "cell_at out i = Some 0")
      case False
      then show ?thesis
        using True Cons.prems Cons.IH [of placed out] by simp
    next
      case zero: True
      let ?out = "out[i := Some 1]"
      have "cell_at ?out k = cell_at out k" if "k \<in> set rest" for k
      proof -
        have "k \<noteq> i" using that Cons.prems(1) by auto
        then show ?thesis by (simp add: cell_at_def)
      qed
      then have "filter (\<lambda>k. cell_at ?out k = Some 0) rest
              = filter (\<lambda>k. cell_at out k = Some 0) rest"
        by (intro filter_cong) simp_all
      then have "wanted - (placed + 1)
                   \<le> length (filter (\<lambda>k. cell_at ?out k = Some 0) rest)"
        using Cons.prems(3) zero by simp
      then show ?thesis
        using True zero Cons.prems Cons.IH [of "placed + 1" ?out] by simp
    qed
  qed
qed

lemma zeros_ones_length:
  assumes "\<forall>c \<in> set out. c = Some 0 \<or> c = Some (1::int)"
  shows "length (filter (\<lambda>c. c = Some 0) out) + length (filter (\<lambda>c. c = Some 1) out)
           = length out"
  using assms by (induction out) auto

lemma cells_index_filter:
  "length (filter (\<lambda>i. cell_at out i = v) [0..<length out]) = length (filter (\<lambda>c. c = v) out)"
proof -
  have "filter (\<lambda>i. cell_at out i = v) [0..<length out]
          = filter (\<lambda>i. out ! i = v) [0..<length out]"
    by (rule filter_cong) (simp_all add: cell_at_def)
  then show ?thesis
    using length_filter_nth [of "\<lambda>c. c = v" out] by simp
qed

lemma place_hits_cells:
  assumes "\<forall>c \<in> set out. c = Some 0 \<or> c = Some 1"
  shows "\<forall>c \<in> set (fst (place_hits order limit (out, placed))). c = Some 0 \<or> c = Some 1"
  using assms
proof (induction order arbitrary: out placed)
  case Nil
  then show ?case by simp
next
  case (Cons i order)
  have "\<forall>c \<in> set (out[i := Some 1]). c = Some 0 \<or> c = Some 1"
    using Cons.prems set_update_subset_insert [of out i "Some 1"] by auto
  then show ?case
    using Cons.prems Cons.IH [of "out[i := Some 1]" "placed + 1"] by simp
qed

lemma js_round_le:
  assumes "x \<le> real k"
  shows "js_round x \<le> int k"
proof -
  have "x + 1 / 2 < real_of_int (int k + 1)" using assms by simp
  then have "\<lfloor>x + 1 / 2\<rfloor> < int k + 1" by (simp only: floor_less_iff)
  then show ?thesis by (simp add: js_round_def)
qed

lemma applyHalfBias01_center_count:
  assumes "0 \<le> bias01"
  shows "length (filter (\<lambda>c. c = Some 1) (applyHalfBias01_center arr bias01))
           = length (filter (\<lambda>c. c = Some 1) arr)
         \<and> length (applyHalfBias01_center arr bias01) = length arr"
proof -
  define n where "n = length arr"
  define half where "half = n div 2"
  define hits where "hits = length (filter (\<lambda>c. c = Some (1::int)) arr)"
  define targetFront where "targetFront = js_round (real hits * (1 - bias01))"
  define s1 where "s1 = place_hits (centerOrder 0 half) targetFront (replicate n (Some 0), 0)"
  define s2 where "s2 = place_hits (centerOrder half (n - half)) (int hits) s1"
  define s3 where "s3 = (if snd s2 < hits then fill_remaining [0..<n] hits s2 else s2)"
  have hits_fold: "fold (\<lambda>i h. if cell_at arr i = Some 1 then h + 1 else h) [0..<n] 0 = hits"
    by (simp add: fold_count cells_index_filter n_def hits_def)
  have res: "applyHalfBias01_center arr bias01 = fst s3"
    unfolding applyHalfBias01_center_def Let_def n_def [symmetric] hits_fold
      half_def [symmetric] targetFront_def [symmetric] s1_def [symmetric]
      s2_def [symmetric] s3_def [symmetric] ..
  have hits_le: "hits \<le> n" by (simp add: hits_def n_def)
  have "real hits * (1 - bias01) \<le> real hits"
    using assms by (simp add: mult_left_le)
  then have tf: "targetFront \<le> int hits"
    unfolding targetFront_def by (rule js_round_le)
  obtain out1 p1 where s1: "s1 = (out1, p1)" by (cases s1)
  obtain out2 p2 where s2: "s2 = (out2, p2)" by (cases s2)
  obtain out3 p3 where s3: "s3 = (out3, p3)" by (cases s3)
  have pre1: "\<forall>i \<in> set (centerOrder 0 half).
                i < length (replicate n (Some (0::int))) \<and> replicate n (Some (0::int)) ! i = Some 0"
    by (auto simp: centerOrder_set half_def)
  have inv1: "length out1 = n" "length (filter (\<lambda>c. c = Some 1) out1) = p1"
    "int p1 \<le> max 0 targetFront"
    "\<forall>j. j \<notin> set (centerOrder 0 half) \<longrightarrow> out1 ! j = replicate n (Some 0) ! j"
    using place_hits_inv [OF centerOrder_distinct pre1, of targetFront 0 out1 p1]
      s1 s1_def by simp_all
  have p1: "p1 \<le> hits" using inv1(3) tf by simp
  have pre2: "\<forall>i \<in> set (centerOrder half (n - half)). i < length out1 \<and> out1 ! i = Some 0"
  proof
    fix i assume "i \<in> set (centerOrder half (n - half))"
    then have i: "half \<le> i" "i < n" by (auto simp: centerOrder_set half_def)
    then have "i \<notin> set (centerOrder 0 half)" by (simp add: centerOrder_set)
    then have "out1 ! i = replicate n (Some 0) ! i" using inv1(4) by blast
    then show "i < length out1 \<and> out1 ! i = Some 0" using i inv1(1) by simp
  qed
  have inv2: "length out2 = n" "length (filter (\<lambda>c. c = Some 1) out2) + p1 = p1 + p2"
    "int p2 \<le> max (int p1) (int hits)"
    using place_hits_inv [OF centerOrder_distinct pre2, of "int hits" p1 out2 p2]
      s2 s2_def s1 inv1 by simp_all
  have p2: "p2 \<le> hits" "length (filter (\<lambda>c. c = Some 1) out2) = p2"
    using inv2 p1 by simp_all
  have cells1: "\<forall>c \<in> set out1. c = Some 0 \<or> c = Some 1"
    using place_hits_cells [of "replicate n (Some 0)" "centerOrder 0 half" targetFront 0]
      s1 s1_def by simp
  have cells2: "\<forall>c \<in> set out2. c = Some 0 \<or> c = Some 1"
    using place_hits_cells [OF cells1, of "centerOrder half (n - half)" "int hits" p1]
      s2 s2_def s1 by simp
  have fin: "length out3 = n \<and> length (filter (\<lambda>c. c = Some 1) out3) = hits"
  proof (cases "p2 < hits")
    case False
    then show ?thesis using s3 s3_def s2 p2 inv2(1) by simp
  next
    case True
    then have f: "fill_remaining [0..<n] hits (out2, p2) = (out3, p3)"
      using s3 s3_def s2 by simp
    have "length (filter (\<lambda>i. cell_at out2 i = Some 0) [0..<n])
            = length (filter (\<lambda>c. c = Some 0) out2)"
      using cells_index_filter [of out2 "Some 0"] inv2(1) by simp
    also have "\<dots> = n - p2"
      using zeros_ones_length [OF cells2] p2(2) inv2(1) by simp
    finally have "hits - p2 \<le> length (filter (\<lambda>i. cell_at out2 i = Some 0) [0..<n])"
      using hits_le by simp
    then have "snd (fill_remaining [0..<n] hits (out2, p2)) = hits"
      using p2(1) by (intro fill_remaining_reaches) simp_all
    then have "p3 = hits" using f by simp
    then show ?thesis
      using fill_remaining_inv [OF f] p2(2) inv2(1) by simp
  qed
  then show ?thesis by (simp add: res s3 hits_def n_def)
qed

section \<open>The Euclidean placement sets exactly \<open>hits\<close> positions\<close>

lemma div_decomp:
  fixes q n r :: int
  shows "0 \<le> r \<Longrightarrow> r < n \<Longrightarrow> (q * n + r) div n = q"
  by (simp add: div_pos_pos_trivial)

lemma euclid_indicator:
  fixes i k n :: int
  assumes "0 < n" and "0 \<le> k" and "k \<le> n"
  shows "(if (i * k) mod n < k then 1 else 0) = (i * k) div n - ((i - 1) * k) div n"
proof -
  define q where "q = (i * k) div n"
  define r where "r = (i * k) mod n"
  have r: "0 \<le> r" "r < n" using assms by (simp_all add: r_def)
  have ik: "i * k = q * n + r" by (simp add: q_def r_def)
  have prev: "(i - 1) * k = q * n + (r - k)" using ik by (simp add: algebra_simps)
  show ?thesis
  proof (cases "r < k")
    case True
    then have "(i - 1) * k = (q - 1) * n + (r - k + n)" using prev by (simp add: algebra_simps)
    moreover have "0 \<le> r - k + n" "r - k + n < n" using True r assms by simp_all
    ultimately have "((i - 1) * k) div n = q - 1"
      by (simp only: div_decomp)
    then show ?thesis using True by (simp add: q_def r_def)
  next
    case False
    then have "0 \<le> r - k" "r - k < n" using r assms by simp_all
    then have "((i - 1) * k) div n = q"
      by (simp only: prev div_decomp)
    then show ?thesis using False by (simp add: q_def r_def)
  qed
qed

lemma euclid_count_upto:
  fixes k n :: int
  assumes "0 < n" and "0 \<le> k" and "k \<le> n"
  shows "int (length (filter (\<lambda>i. (int i * k) mod n < k) [0..<m]))
           = ((int m - 1) * k) div n - (- k) div n"
proof (induction m)
  case 0
  then show ?case by simp
next
  case (Suc m)
  have "int (length (filter (\<lambda>i. (int i * k) mod n < k) [0..<Suc m]))
          = int (length (filter (\<lambda>i. (int i * k) mod n < k) [0..<m]))
            + (if (int m * k) mod n < k then 1 else 0)"
    by simp
  also have "\<dots> = ((int m - 1) * k) div n - (- k) div n
                   + ((int m * k) div n - ((int m - 1) * k) div n)"
    by (simp only: Suc.IH euclid_indicator [OF assms])
  finally show ?case by simp
qed

lemma euclid_count:
  fixes k n :: int
  assumes "0 < n" and "0 \<le> k" and "k \<le> n"
  shows "length (filter (\<lambda>i. (int i * k) mod n < k) [0..<nat n]) = nat k"
proof (cases "k = 0")
  case True
  then show ?thesis using assms by simp
next
  case False
  then have k: "0 < k" using assms by simp
  have "(n - 1) * k = (k - 1) * n + (n - k)" by (simp add: algebra_simps)
  moreover have "0 \<le> n - k" "n - k < n" using k assms by simp_all
  ultimately have a: "((n - 1) * k) div n = k - 1"
    by (simp only: div_decomp)
  have "- k = (- 1) * n + (n - k)" by simp
  then have b: "(- k) div n = - 1"
    using div_decomp [OF \<open>0 \<le> n - k\<close> \<open>n - k < n\<close>, of "- 1"] by simp
  have "int (length (filter (\<lambda>i. (int i * k) mod n < k) [0..<nat n])) = k"
    using euclid_count_upto [OF assms, of "nat n"] assms(1) a b by simp
  then show ?thesis by linarith
qed

section \<open>Properties of the pattern generator\<close>

lemma length_filter_bool:
  "length (filter (\<lambda>b. b) (map (\<lambda>v. v = Some (1::int)) xs))
     = length (filter (\<lambda>c. c = Some 1) xs)"
  by (simp add: filter_map comp_def)

lemma rotate_arr_nth:
  assumes "i < length p"
  shows "rotate_arr p a ! nat ((int i + a) mod int (length p)) = p ! i"
proof -
  define n where "n = int (length p)"
  have ne: "p \<noteq> []" using assms by (cases p) simp_all
  have n: "0 < n" using ne by (simp add: n_def)
  define j where "j = nat ((int i + a) mod n)"
  define m where "m = nat ((- a) mod n)"
  have j: "int j = (int i + a) mod n" "j < length p"
    using n by (simp_all add: j_def n_def nat_less_iff)
  have m: "int m = (- a) mod n" using n by (simp add: m_def)
  have "int ((m + j) mod length p) = ((- a) mod n + (int i + a) mod n) mod n"
    using j(1) m by (simp add: zmod_int n_def)
  also have "\<dots> = (- a + (int i + a)) mod n" by (simp add: mod_add_eq)
  also have "\<dots> = int i mod n" by simp
  also have "\<dots> = int i" using assms by (simp add: n_def)
  finally have k: "(m + j) mod length p = i" by linarith
  have "rotate_arr p a ! j = rotate m p ! j"
    by (simp add: rotate_arr_conv [OF ne] m_def n_def)
  also have "\<dots> = p ! ((m + j) mod length p)"
    using j(2) by (simp add: nth_rotate)
  finally have "rotate_arr p a ! j = p ! i" by (simp only: k)
  then show ?thesis by (simp only: j_def n_def)
qed

text \<open>
  Claim C5. Rotation is a circular shift: the entry at position \<open>i\<close> moves to position
  \<open>(i + a) mod steps\<close>, which lies in \<open>[0, steps)\<close> for every integer \<open>a\<close>, negative ones
  included, and the length is kept. Rotating by \<open>a\<close> and then by \<open>b\<close> is rotating by
  \<open>(a + b) mod steps\<close>; rotating by the length changes nothing; and a rotation keeps the
  number of hits. A hit at position 0 of five moves to position 1 under rotation 1 and to
  position 4 under rotation -1.
\<close>

theorem rotate_arr_group_action:
  "rotate_arr (rotate_arr p a) b = rotate_arr p ((a + b) mod int (length p))
   \<and> rotate_arr p (int (length p)) = p
   \<and> countHits (rotate_arr p a) 0 (length p) = countHits p 0 (length p)
   \<and> length (rotate_arr p a) = length p
   \<and> (\<forall>i < length p. rotate_arr p a ! nat ((int i + a) mod int (length p)) = p ! i)
   \<and> rotate_arr [Some 1, Some 0, Some 0, Some 0, Some (0::int)] 1
       = [Some 0, Some 1, Some 0, Some 0, Some 0]
   \<and> rotate_arr [Some 1, Some 0, Some 0, Some 0, Some (0::int)] (- 1)
       = [Some 0, Some 0, Some 0, Some 0, Some 1]"
proof (intro conjI allI impI)
  show "rotate_arr (rotate_arr p a) b = rotate_arr p ((a + b) mod int (length p))"
    by (rule rotate_arr_compose)
  show "rotate_arr p (int (length p)) = p" by (rule rotate_arr_full)
  show "countHits (rotate_arr p a) 0 (length p) = countHits p 0 (length p)"
    by (rule countHits_rotate_arr)
  show "length (rotate_arr p a) = length p" by (rule length_rotate_arr)
  show "rotate_arr p a ! nat ((int i + a) mod int (length p)) = p ! i" if "i < length p" for i
    using that by (rule rotate_arr_nth)
  show "rotate_arr [Some 1, Some 0, Some 0, Some 0, Some (0::int)] 1
       = [Some 0, Some 1, Some 0, Some 0, Some 0]"
    by code_simp
  show "rotate_arr [Some 1, Some 0, Some 0, Some 0, Some (0::int)] (- 1)
       = [Some 0, Some 0, Some 0, Some 0, Some 1]"
    by code_simp
qed

theorem rotate_arr_group_action_witness:
  "rotate_arr [Some 7, Some 0, Some 0, Some 0, Some (0::int)] (- 7) ! 3 = Some 7"
proof -
  let ?p = "[Some 7, Some 0, Some 0, Some 0, Some (0::int)]"
  have a: "0 < length ?p" by simp
  have e: "rotate_arr ?p (- 7) ! nat ((int 0 + - 7) mod int (length ?p)) = ?p ! 0"
    using rotate_arr_group_action [of ?p "- 7"] a by blast
  have idx: "nat ((int 0 + - 7) mod int (length ?p)) = 3" by simp
  have v: "?p ! 0 = Some 7" by simp
  from e show ?thesis unfolding idx v .
qed

text \<open>
  Claim C2. The bias redistribution keeps the number of hits of the array it is given,
  and its length: each move clears one hit and sets one empty position. This holds for
  every array and every bias. The earlier variant of the redistribution keeps them for
  a bias in \<open>[0, 1]\<close>.
\<close>

theorem applyHalfBias01_preserves_hits:
  "countHits (applyHalfBias01 arr bias01) 0 (length arr) = countHits arr 0 (length arr)
   \<and> length (applyHalfBias01 arr bias01) = length arr
   \<and> (0 \<le> bias01 \<and> bias01 \<le> 1 \<longrightarrow>
        countHits (applyHalfBias01_center arr bias01) 0 (length arr)
          = countHits arr 0 (length arr)
        \<and> length (applyHalfBias01_center arr bias01) = length arr)"
proof (intro conjI impI)
  show "countHits (applyHalfBias01 arr bias01) 0 (length arr) = countHits arr 0 (length arr)"
    using countHits_all [of "applyHalfBias01 arr bias01"]
    by (simp add: applyHalfBias01_length applyHalfBias01_count countHits_all)
  show "length (applyHalfBias01 arr bias01) = length arr"
    by (rule applyHalfBias01_length)
next
  assume "0 \<le> bias01 \<and> bias01 \<le> 1"
  then have b: "0 \<le> bias01" by simp
  show "countHits (applyHalfBias01_center arr bias01) 0 (length arr)
          = countHits arr 0 (length arr)"
    using countHits_all [of "applyHalfBias01_center arr bias01"]
      applyHalfBias01_center_count [OF b, of arr]
    by (simp add: countHits_all)
  show "length (applyHalfBias01_center arr bias01) = length arr"
    using applyHalfBias01_center_count [OF b, of arr] by simp
qed

theorem applyHalfBias01_preserves_hits_witness:
  "countHits (applyHalfBias01
       [Some 1, Some 0, Some 0, Some 1, Some 0, Some 0, Some 1, Some 0] (7 / 10)) 0 8 = 3
   \<and> countHits (applyHalfBias01_center
       [Some 1, Some 0, Some 0, Some 1, Some 0, Some 0, Some 1, Some 0] (7 / 10)) 0 8 = 3"
proof -
  let ?arr = "[Some 1, Some 0, Some 0, Some 1, Some 0, Some 0, Some 1, Some (0::int)]"
  have c: "countHits ?arr 0 8 = 3" by code_simp
  have l: "length ?arr = 8" by simp
  show ?thesis
    using applyHalfBias01_preserves_hits [of ?arr "7 / 10"] c unfolding l by simp
qed

lemma generateEuclidPattern_valid:
  assumes "1 \<le> EuclidParams.steps p" and "0 \<le> EuclidParams.hits p"
    and "EuclidParams.hits p \<le> EuclidParams.steps p"
  shows "generateEuclidPattern p =
     (let result0 = map (\<lambda>i. if js_rem (int i * EuclidParams.hits p) (EuclidParams.steps p)
                                   < EuclidParams.hits p
                                then Some (1::int) else Some 0) [0..<nat (EuclidParams.steps p)];
          result1 = (if EuclidParams.bias p \<noteq> 1 / 2
                     then applyHalfBias01 result0 (EuclidParams.bias p) else result0);
          result2 = (if EuclidParams.rotation p \<noteq> 0
                     then rotate_arr result1 (EuclidParams.rotation p) else result1) in
      map (\<lambda>v. v = Some 1) result2)"
  using assms by (simp add: generateEuclidPattern_def Let_def)

text \<open>
  Claim C10. For \<open>steps \<ge> 1\<close> and \<open>0 \<le> hits \<le> steps\<close>, whatever the bias (also below 0
  or above 1) and whatever the rotation, the generated pattern has exactly \<open>steps\<close>
  entries, exactly \<open>hits\<close> of them true. The generator is a total function: none of its
  branches is an error.
\<close>

theorem generateEuclidPattern_length_hits:
  assumes "1 \<le> EuclidParams.steps p" and "0 \<le> EuclidParams.hits p"
    and "EuclidParams.hits p \<le> EuclidParams.steps p"
  shows "length (generateEuclidPattern p) = nat (EuclidParams.steps p)
         \<and> length (filter (\<lambda>b. b) (generateEuclidPattern p)) = nat (EuclidParams.hits p)"
proof -
  define n where "n = EuclidParams.steps p"
  define k where "k = EuclidParams.hits p"
  define result0 where
    "result0 = map (\<lambda>i. if js_rem (int i * k) n < k then Some (1::int) else Some 0) [0..<nat n]"
  define result1 where
    "result1 = (if EuclidParams.bias p \<noteq> 1 / 2
                then applyHalfBias01 result0 (EuclidParams.bias p) else result0)"
  define result2 where
    "result2 = (if EuclidParams.rotation p \<noteq> 0
                then rotate_arr result1 (EuclidParams.rotation p) else result1)"
  have nk: "0 < n" "0 \<le> k" "k \<le> n" using assms by (simp_all add: n_def k_def)
  have gen: "generateEuclidPattern p = map (\<lambda>v. v = Some 1) result2"
    using generateEuclidPattern_valid [OF assms]
    by (simp add: Let_def result2_def result1_def result0_def n_def k_def)
  have l0: "length result0 = nat n" by (simp add: result0_def)
  have l1: "length result1 = nat n"
    by (simp add: result1_def applyHalfBias01_length l0)
  have l2: "length result2 = nat n"
    by (simp add: result2_def length_rotate_arr l1)
  have "filter (\<lambda>c. c = Some 1) result0
          = map (\<lambda>i. Some 1) (filter (\<lambda>i. (int i * k) mod n < k) [0..<nat n])"
    using nk by (simp add: result0_def filter_map comp_def js_rem_nonneg cong: filter_cong)
  then have c0: "length (filter (\<lambda>c. c = Some 1) result0) = nat k"
    using euclid_count [OF nk] by simp
  have c1: "length (filter (\<lambda>c. c = Some 1) result1) = nat k"
    by (simp add: result1_def applyHalfBias01_count c0)
  have c2: "length (filter (\<lambda>c. c = Some 1) result2) = nat k"
    by (simp add: result2_def rotate_arr_rotate length_filter_rotate c1)
  have c: "length (filter (\<lambda>b. b) (generateEuclidPattern p)) = nat k"
    unfolding gen using c2 by (simp only: length_filter_bool)
  have l: "length (generateEuclidPattern p) = nat n"
    unfolding gen using l2 by simp
  show ?thesis
    using c l by (simp only: n_def k_def)
qed

theorem generateEuclidPattern_length_hits_witness:
  "(1::int) \<le> 8 \<and> (0::int) \<le> 3 \<and> (3::int) \<le> 8
   \<and> length (generateEuclidPattern
        \<lparr>EuclidParams.steps = 8, hits = 3, bias = - 2, rotation = - 11\<rparr>) = 8
   \<and> length (filter (\<lambda>b. b) (generateEuclidPattern
        \<lparr>EuclidParams.steps = 8, hits = 3, bias = - 2, rotation = - 11\<rparr>)) = 3"
  using generateEuclidPattern_length_hits
    [of "\<lparr>EuclidParams.steps = 8, hits = 3, bias = - 2, rotation = - 11\<rparr>"]
  by simp

text \<open>
  Claim C6. For degenerate parameters (\<open>steps \<le> 0\<close>, or \<open>hits < 0\<close>, or \<open>hits > steps\<close>),
  whatever the bias and the rotation, the generator returns the all-false pattern of
  length \<open>max(0, steps)\<close>; it has no error branch.
\<close>

theorem generateEuclidPattern_degenerate:
  assumes "EuclidParams.steps p \<le> 0 \<or> EuclidParams.hits p < 0
           \<or> EuclidParams.hits p > EuclidParams.steps p"
  shows "generateEuclidPattern p = replicate (nat (max 0 (EuclidParams.steps p))) False"
  using assms by (auto simp: generateEuclidPattern_def Let_def)

theorem generateEuclidPattern_degenerate_witness:
  "(EuclidParams.steps \<lparr>EuclidParams.steps = 5, hits = 7, bias = 3 / 10, rotation = 2\<rparr> \<le> 0
    \<or> EuclidParams.hits \<lparr>EuclidParams.steps = 5, hits = 7, bias = 3 / 10, rotation = 2\<rparr> < 0
    \<or> EuclidParams.hits \<lparr>EuclidParams.steps = 5, hits = 7, bias = 3 / 10, rotation = 2\<rparr>
        > EuclidParams.steps \<lparr>EuclidParams.steps = 5, hits = 7, bias = 3 / 10, rotation = 2\<rparr>)
   \<and> generateEuclidPattern \<lparr>EuclidParams.steps = 5, hits = 7, bias = 3 / 10, rotation = 2\<rparr>
       = [False, False, False, False, False]
   \<and> generateEuclidPattern \<lparr>EuclidParams.steps = - 4, hits = 2, bias = 1 / 2, rotation = 0\<rparr> = []
   \<and> generateEuclidPattern \<lparr>EuclidParams.steps = 4, hits = - 1, bias = 1, rotation = - 3\<rparr>
       = [False, False, False, False]"
  using generateEuclidPattern_degenerate
      [of "\<lparr>EuclidParams.steps = 5, hits = 7, bias = 3 / 10, rotation = 2\<rparr>"]
    generateEuclidPattern_degenerate
      [of "\<lparr>EuclidParams.steps = - 4, hits = 2, bias = 1 / 2, rotation = 0\<rparr>"]
    generateEuclidPattern_degenerate
      [of "\<lparr>EuclidParams.steps = 4, hits = - 1, bias = 1, rotation = - 3\<rparr>"]
  by (simp add: numeral_eq_Suc)

text \<open>
  Claim C1. With \<open>steps \<ge> 1\<close>, \<open>0 \<le> hits \<le> steps\<close>, bias 0.5 and rotation 0, the pattern
  has length \<open>steps\<close> and position \<open>i\<close> is true exactly when \<open>(i * hits) mod steps < hits\<close>.
  For 16 steps and 4 hits the hits are at 0, 4, 8, 12; for 16 steps and 2 hits rotated
  by 4 they are at 4 and 12.
\<close>

theorem generateEuclidPattern_neutral:
  "(1 \<le> n \<and> 0 \<le> k \<and> k \<le> n \<longrightarrow>
      generateEuclidPattern \<lparr>EuclidParams.steps = n, hits = k, bias = 1 / 2, rotation = 0\<rparr>
        = map (\<lambda>i. (int i * k) mod n < k) [0..<nat n]
      \<and> length (generateEuclidPattern
            \<lparr>EuclidParams.steps = n, hits = k, bias = 1 / 2, rotation = 0\<rparr>) = nat n)
   \<and> hit_indices (generateEuclidPattern
         \<lparr>EuclidParams.steps = 16, hits = 4, bias = 1 / 2, rotation = 0\<rparr>) = [0, 4, 8, 12]
   \<and> hit_indices (generateEuclidPattern
         \<lparr>EuclidParams.steps = 16, hits = 2, bias = 1 / 2, rotation = 4\<rparr>) = [4, 12]"
proof (intro conjI impI)
  assume a: "1 \<le> n \<and> 0 \<le> k \<and> k \<le> n"
  then show g: "generateEuclidPattern
          \<lparr>EuclidParams.steps = n, hits = k, bias = 1 / 2, rotation = 0\<rparr>
        = map (\<lambda>i. (int i * k) mod n < k) [0..<nat n]"
    using generateEuclidPattern_valid
      [of "\<lparr>EuclidParams.steps = n, hits = k, bias = 1 / 2, rotation = 0\<rparr>"]
    by (simp add: js_rem_nonneg)
  show "length (generateEuclidPattern
          \<lparr>EuclidParams.steps = n, hits = k, bias = 1 / 2, rotation = 0\<rparr>) = nat n"
    by (simp add: g)
next
  show "hit_indices (generateEuclidPattern
         \<lparr>EuclidParams.steps = 16, hits = 4, bias = 1 / 2, rotation = 0\<rparr>) = [0, 4, 8, 12]"
    by code_simp
next
  show "hit_indices (generateEuclidPattern
         \<lparr>EuclidParams.steps = 16, hits = 2, bias = 1 / 2, rotation = 4\<rparr>) = [4, 12]"
    by code_simp
qed

theorem generateEuclidPattern_neutral_witness:
  "(1::int) \<le> 5 \<and> (0::int) \<le> 2 \<and> (2::int) \<le> 5
   \<and> generateEuclidPattern \<lparr>EuclidParams.steps = 5, hits = 2, bias = 1 / 2, rotation = 0\<rparr>
       = [True, False, False, True, False]"
proof -
  have "generateEuclidPattern \<lparr>EuclidParams.steps = 5, hits = 2, bias = 1 / 2, rotation = 0\<rparr>
          = map (\<lambda>i. (int i * 2) mod 5 < 2) [0..<nat 5]"
    using generateEuclidPattern_neutral [of 5 2] by simp
  also have "\<dots> = [True, False, False, True, False]"
    by (simp add: numeral_eq_Suc upt_rec)
  finally show ?thesis by simp
qed

section \<open>Properties of the transport scheduler\<close>

lemma js_rem_2_even: "js_rem x 2 = 0 \<longleftrightarrow> even x"
  by (cases "x = 0") (auto simp: js_rem_def sgn_if even_iff_mod_2_eq_zero)

lemma swing_ratio_clamp:
  "max 0 (min (30 / 100) ((s / 100) * (30 / 100))) = max 0 (min 1 (s / 100)) * (30 / 100)"
  for s :: real
  by (auto simp: max_def min_def)

lemma nextStep_nextTime:
  "nextTimeRef (nextStep transport st) =
     nextTimeRef st
     + 60 / max 40 (min 300 (bpm transport)) / 4
       * (if even (currentStepRef st)
          then 1 + max 0 (min 1 (swing transport / 100)) * (30 / 100)
          else 1 - max 0 (min 1 (swing transport / 100)) * (30 / 100))"
  unfolding nextStep_def Let_def swing_ratio_clamp js_rem_2_even by simp

lemma nextStep_currentStep:
  "currentStepRef (nextStep transport st) =
     js_rem (currentStepRef st + 1) (max 1 (cycleLengthRef st))"
  by (simp add: nextStep_def Let_def)

text \<open>
  Claim C3, as the code has it. The interval added to \<open>nextTimeRef\<close> is
  \<open>base * (1 + swingRatio)\<close> when the step index before the advance (the step that was just
  scheduled) is even, and \<open>base * (1 - swingRatio)\<close> when it is odd, with
  \<open>base = 60 / bpm / 4\<close> for the tempo clamped to 40..300 and
  \<open>swingRatio = clamp(swing / 100, 0, 1) * 0.30\<close>. At 120 bpm and swing 100 the interval
  is 0.1625 s after an even step and 0.0875 s after an odd one.
\<close>

theorem nextStep_interval:
  "nextTimeRef (nextStep transport st) - nextTimeRef st =
     (let base = 60 / max 40 (min 300 (bpm transport)) / 4;
          swingRatio = max 0 (min 1 (swing transport / 100)) * (30 / 100) in
      if even (currentStepRef st) then base * (1 + swingRatio) else base * (1 - swingRatio))
   \<and> (bpm transport = 120 \<and> swing transport = 100 \<longrightarrow>
        nextTimeRef (nextStep transport st) - nextTimeRef st =
          (if even (currentStepRef st) then 1625 / 10000 else 875 / 10000))"
  by (simp add: nextStep_nextTime Let_def)

theorem nextStep_interval_witness:
  "bpm \<lparr>isPlaying = True, bpm = 120, swing = 100, timeSignature = ''4/4'', currentStep = 0\<rparr> = 120
   \<and> swing \<lparr>isPlaying = True, bpm = 120, swing = 100, timeSignature = ''4/4'', currentStep = 0\<rparr> = 100
   \<and> nextTimeRef (nextStep
         \<lparr>isPlaying = True, bpm = 120, swing = 100, timeSignature = ''4/4'', currentStep = 0\<rparr>
         \<lparr>currentStepRef = 2, nextTimeRef = 1, cycleLengthRef = 16\<rparr>) - 1 = 1625 / 10000
   \<and> nextTimeRef (nextStep
         \<lparr>isPlaying = True, bpm = 120, swing = 100, timeSignature = ''4/4'', currentStep = 0\<rparr>
         \<lparr>currentStepRef = 3, nextTimeRef = 1, cycleLengthRef = 16\<rparr>) - 1 = 875 / 10000"
  using nextStep_interval
      [of "\<lparr>isPlaying = True, bpm = 120, swing = 100, timeSignature = ''4/4'', currentStep = 0\<rparr>"
          "\<lparr>currentStepRef = 2, nextTimeRef = 1, cycleLengthRef = 16\<rparr>"]
    nextStep_interval
      [of "\<lparr>isPlaying = True, bpm = 120, swing = 100, timeSignature = ''4/4'', currentStep = 0\<rparr>"
          "\<lparr>currentStepRef = 3, nextTimeRef = 1, cycleLengthRef = 16\<rparr>"]
  by simp

text \<open>
  Claim C3 as stated fails: from step 0 the new step index is 1, which is odd, and the
  interval added is the long one, not \<open>base * (1 - swingRatio)\<close>.
\<close>

theorem nextStep_new_index_counterexample:
  "odd (currentStepRef (nextStep
         \<lparr>isPlaying = True, bpm = 120, swing = 100, timeSignature = ''4/4'', currentStep = 0\<rparr>
         \<lparr>currentStepRef = 0, nextTimeRef = 0, cycleLengthRef = 16\<rparr>))
   \<and> nextTimeRef (nextStep
         \<lparr>isPlaying = True, bpm = 120, swing = 100, timeSignature = ''4/4'', currentStep = 0\<rparr>
         \<lparr>currentStepRef = 0, nextTimeRef = 0, cycleLengthRef = 16\<rparr>)
       - nextTimeRef \<lparr>currentStepRef = 0, nextTimeRef = 0, cycleLengthRef = 16\<rparr>
     \<noteq> 60 / 120 / 4 * (1 - max 0 (min 1 (100 / 100)) * (30 / 100))"
  by (simp add: nextStep_nextTime nextStep_currentStep js_rem_def)

lemma schedule_conv:
  "schedule drumMachine tracks now step time =
     (if drumMachine then
        map (\<lambda>track. (track_id track, Track.volume track / 100, max time (now + 1 / 1000)))
          (filter (\<lambda>track. \<not> muted track
               \<and> pattern_at (pattern track)
                    (if Track.steps track = 0 then None
                     else Some (js_rem step (Track.steps track)))
               \<and> (\<not> list_ex solo tracks \<or> solo track)) tracks)
      else [])"
proof (cases drumMachine)
  case True
  let ?P = "\<lambda>track. \<not> muted track
               \<and> pattern_at (pattern track)
                    (if Track.steps track = 0 then None
                     else Some (js_rem step (Track.steps track)))
               \<and> (\<not> list_ex solo tracks \<or> solo track)"
  let ?g = "\<lambda>track. (track_id track, Track.volume track / 100, max time (now + 1 / 1000))"
  have "schedule drumMachine tracks now step time
          = fold (\<lambda>track sent. if ?P track then sent @ [?g track] else sent) tracks []"
    using True unfolding schedule_def Let_def triggerDrumSound_def by (simp only: if_True)
  also have "\<dots> = [] @ map ?g (filter ?P tracks)"
    by (rule fold_collect)
  finally show ?thesis using True by simp
next
  case False
  have "fold (\<lambda>track sent. if Q track then sent else sent) xs acc = acc"
    for xs :: "Track list" and acc :: "trigger list" and Q
    by (induction xs) simp_all
  then show ?thesis
    using False unfolding schedule_def Let_def triggerDrumSound_def by (simp only: if_False)
qed

text \<open>
  Claim C8. Every call the scheduler makes to the drum machine carries the time
  \<open>max(time, now + 0.001)\<close>, \<open>now\<close> being the clock reading of that step event, and this
  time is strictly later than \<open>now\<close>.
\<close>

theorem schedule_trigger_time:
  "\<forall>(trackId, vol, t) \<in> set (schedule drumMachine tracks now step time).
      t = max time (now + 1 / 1000) \<and> now < t"
  by (auto simp: schedule_conv)

theorem schedule_trigger_time_witness:
  "schedule True
     [\<lparr>track_id = ''kick'', name = ''Kick'', steps = 4, hits = 2, bias = 1 / 2, rotation = 0,
       volume = 80, muted = False, solo = False, pattern = [True, False, True, False],
       color = ''red''\<rparr>] 10 6 9
     = [(''kick'', 4 / 5, 10001 / 1000)]
   \<and> (10::real) < 10001 / 1000"
proof -
  let ?tracks = "[\<lparr>track_id = ''kick'', name = ''Kick'', steps = 4, hits = 2, bias = 1 / 2,
       rotation = 0, volume = 80, muted = False, solo = False,
       pattern = [True, False, True, False], color = ''red''\<rparr>]"
  have s: "schedule True ?tracks 10 6 9 = [(''kick'', 4 / 5, 10001 / 1000)]"
    by (simp add: schedule_conv pattern_at_def js_rem_def)
  then have "(''kick'', 4 / 5, 10001 / 1000) \<in> set (schedule True ?tracks 10 6 9)" by simp
  with schedule_trigger_time [of True ?tracks 10 6 9]
  have "(10::real) < 10001 / 1000" by fastforce
  with s show ?thesis by simp
qed

text \<open>
  Claim C9. At global step \<open>s\<close>, the calls made to the drum machine are, in track order,
  one for each track that is not muted, whose pattern is true at \<open>s mod steps\<close>, and that
  is soloed unless no track is; the velocity is \<open>volume / 100\<close>.
\<close>

theorem schedule_triggers:
  assumes "0 \<le> step" and "\<forall>track \<in> set tracks. 0 < Track.steps track"
  shows "schedule True tracks now step time =
     map (\<lambda>track. (track_id track, Track.volume track / 100, max time (now + 1 / 1000)))
       (filter (\<lambda>track. \<not> muted track
            \<and> pattern_at (pattern track) (Some (step mod Track.steps track))
            \<and> ((\<forall>other \<in> set tracks. \<not> solo other) \<or> solo track)) tracks)"
proof -
  have "filter (\<lambda>track. \<not> muted track
               \<and> pattern_at (pattern track)
                    (if Track.steps track = 0 then None
                     else Some (js_rem step (Track.steps track)))
               \<and> (\<not> list_ex solo tracks \<or> solo track)) tracks
      = filter (\<lambda>track. \<not> muted track
            \<and> pattern_at (pattern track) (Some (step mod Track.steps track))
            \<and> ((\<forall>other \<in> set tracks. \<not> solo other) \<or> solo track)) tracks"
  proof (rule filter_cong [OF refl])
    fix track assume "track \<in> set tracks"
    then have "0 < Track.steps track" using assms(2) by blast
    then show "(\<not> muted track
               \<and> pattern_at (pattern track)
                    (if Track.steps track = 0 then None
                     else Some (js_rem step (Track.steps track)))
               \<and> (\<not> list_ex solo tracks \<or> solo track))
       = (\<not> muted track
            \<and> pattern_at (pattern track) (Some (step mod Track.steps track))
            \<and> ((\<forall>other \<in> set tracks. \<not> solo other) \<or> solo track))"
      using assms(1) by (auto simp: js_rem_nonneg list_ex_iff)
  qed
  then show ?thesis by (simp add: schedule_conv)
qed

theorem schedule_triggers_witness:
  "schedule True
        [\<lparr>track_id = ''kick'', name = ''Kick'', steps = 4, hits = 2, bias = 1 / 2, rotation = 0,
          volume = 80, muted = False, solo = False, pattern = [True, False, False, True],
          color = ''red''\<rparr>,
         \<lparr>track_id = ''snare'', name = ''Snare'', steps = 3, hits = 2, bias = 1 / 2, rotation = 0,
          volume = 50, muted = False, solo = True, pattern = [False, True, True],
          color = ''blue''\<rparr>] 10 7 (201 / 20)
      = [(''snare'', 1 / 2, 201 / 20)]"
  using schedule_triggers [of 7
        "[\<lparr>track_id = ''kick'', name = ''Kick'', steps = 4, hits = 2, bias = 1 / 2, rotation = 0,
          volume = 80, muted = False, solo = False, pattern = [True, False, False, True],
          color = ''red''\<rparr>,
         \<lparr>track_id = ''snare'', name = ''Snare'', steps = 3, hits = 2, bias = 1 / 2, rotation = 0,
          volume = 50, muted = False, solo = True, pattern = [False, True, True],
          color = ''blue''\<rparr>]" 10 "201 / 20"]
  by (simp add: pattern_at_def)

section \<open>Properties of the cycle aligner\<close>

lemma gcd_loop_gcd: "0 \<le> x \<Longrightarrow> 0 \<le> y \<Longrightarrow> gcd_loop x y = gcd x y"
proof (induction x y rule: gcd_loop.induct)
  case (1 x y)
  show ?case
  proof (cases "y = 0")
    case True
    then show ?thesis using "1.prems" by (simp add: gcd_loop.simps [of x 0])
  next
    case False
    then have y: "0 < y" using "1.prems" by simp
    have r: "js_rem x y = x mod y" using "1.prems" y by (simp add: js_rem_nonneg)
    have "0 \<le> x mod y" using y by simp
    then have "gcd_loop y (js_rem x y) = gcd y (x mod y)"
      using "1.IH" [OF False] "1.prems" r by simp
    then show ?thesis
      using False gcd_red_int [of x y] by (simp add: gcd_loop.simps [of x y])
  qed
qed

lemma gcd_js_gcd: "gcd_js a b = (if gcd a b = 0 then 1 else gcd a b)"
  by (simp add: gcd_js_def gcd_loop_gcd Let_def)

lemma lcm_js_lcm: "lcm_js a b = lcm a b"
proof (cases "gcd a b = 0")
  case True
  then show ?thesis by (simp add: lcm_js_def gcd_js_gcd)
next
  case False
  have "gcd a b dvd a * b" by simp
  then have "\<bar>a * b div gcd a b\<bar> = \<bar>a * b\<bar> div \<bar>gcd a b\<bar>"
    by (rule abs_div)
  then show ?thesis
    using False by (simp add: lcm_js_def gcd_js_gcd lcm_gcd)
qed

lemma gcd_js_exact: "gcd_js a b dvd \<bar>a * b\<bar>"
  by (simp add: gcd_js_gcd)

lemma foldl_lcm_Lcm:
  fixes a :: int
  shows "0 \<le> a \<Longrightarrow> foldl lcm a xs = Lcm (set (a # xs))"
proof (induction xs arbitrary: a)
  case Nil
  then show ?case by simp
next
  case (Cons x xs)
  have "foldl lcm a (x # xs) = foldl lcm (lcm a x) xs" by simp
  also have "\<dots> = Lcm (set (lcm a x # xs))" by (rule Cons.IH) simp
  also have "\<dots> = Lcm (set (a # x # xs))" by (simp add: lcm.assoc)
  finally show ?case .
qed

lemma timeSignatureToSteps_parsed:
  assumes "parseTimeSignature ts = Some (N, D)"
  shows "timeSignatureToSteps ts = max 1 (N * max 1 (16 div D))"
proof -
  have "\<lfloor>(16::real) / of_int D\<rfloor> = 16 div D"
    using floor_divide_of_int_eq [of 16 D, where ?'a = real] by simp
  then show ?thesis using assms by (simp add: timeSignatureToSteps_def)
qed

lemma calculateCycleLength_conv:
  assumes "\<forall>track \<in> set tracks. 0 < Track.steps track"
    and "0 < timeSignatureToSteps ts"
  shows "calculateCycleLength tracks ts
           = Lcm (insert (timeSignatureToSteps ts) (Track.steps ` set tracks))"
proof -
  define sig where "sig = timeSignatureToSteps ts"
  define ls where "ls = map Track.steps tracks @ [sig]"
  have f1: "filter (\<lambda>steps. steps > 0) (map Track.steps tracks) = map Track.steps tracks"
    using assms(1) by (simp add: filter_id_conv)
  have pos: "\<forall>v \<in> set ls. 0 < v" using assms by (auto simp: ls_def sig_def)
  then have f2: "filter (\<lambda>v. v \<noteq> 0) ls = ls" by (auto simp: filter_id_conv)
  have ne: "ls \<noteq> []" by (simp add: ls_def)
  then have hd: "0 \<le> hd ls" using pos by (cases ls) auto
  have "calculateCycleLength tracks ts = foldl lcm_js (hd ls) (tl ls)"
    unfolding calculateCycleLength_def Let_def f1 sig_def [symmetric] ls_def [symmetric] f2
    using ne by simp
  also have "\<dots> = foldl lcm (hd ls) (tl ls)"
  proof -
    have "lcm_js = (lcm :: int \<Rightarrow> int \<Rightarrow> int)" by (intro ext) (rule lcm_js_lcm)
    then show ?thesis by simp
  qed
  also have "\<dots> = Lcm (set (hd ls # tl ls))" by (rule foldl_lcm_Lcm [OF hd])
  also have "\<dots> = Lcm (set ls)" using ne by simp
  finally show ?thesis by (simp add: ls_def sig_def Un_commute)
qed

lemma calculateCycleLength_parsed:
  assumes "\<forall>track \<in> set tracks. 0 < Track.steps track"
    and "parseTimeSignature ts = Some (N, D)"
  shows "calculateCycleLength tracks ts
           = Lcm (insert (max 1 (N * max 1 (16 div D))) (Track.steps ` set tracks))"
  using calculateCycleLength_conv [OF assms(1), of ts] timeSignatureToSteps_parsed [OF assms(2)]
  by simp




lemma digit_cases:
  "d < 10 \<Longrightarrow> d = 0 \<or> d = 1 \<or> d = 2 \<or> d = 3 \<or> d = 4 \<or> d = 5 \<or> d = 6 \<or> d = 7 \<or> d = 8 \<or> d = (9::nat)"
  by arith

lemma digit_char_props:
  assumes "d < 10"
  shows "is_digit (digit_char d)" and "digit_val (digit_char d) = int d"
    and "\<not> is_space (digit_char d)" and "digit_char d \<noteq> CHR ''-''"
    and "digit_char d \<noteq> CHR ''+''" and "digit_char d \<noteq> CHR ''/''"
  using digit_cases [OF assms]
  by (auto simp: digit_char_def is_digit_def digit_val_def is_space_def)

lemma nat_digits_props:
  "nat_digits n \<noteq> [] \<and> (\<forall>c \<in> set (nat_digits n). is_digit c \<and> c \<noteq> CHR ''/'')
   \<and> \<not> is_space (hd (nat_digits n)) \<and> hd (nat_digits n) \<noteq> CHR ''-''
   \<and> hd (nat_digits n) \<noteq> CHR ''+''
   \<and> foldl (\<lambda>acc c. acc * 10 + digit_val c) 0 (nat_digits n) = int n"
proof (induction n rule: nat_digits.induct)
  case (1 n)
  show ?case
  proof (cases "n < 10")
    case True
    then show ?thesis
      using digit_char_props [OF True] by (simp add: nat_digits.simps [of n])
  next
    case False
    have m: "n mod 10 < 10" by simp
    have "int (n div 10) * 10 + int (n mod 10) = int n"
      by (metis of_nat_add of_nat_mult of_nat_numeral div_mult_mod_eq)
    then show ?thesis
      using False "1.IH" [OF False] digit_char_props [OF m]
      by (simp add: nat_digits.simps [of n])
  qed
qed

lemma parseInt10_unsigned:
  assumes "ds \<noteq> []" and "\<forall>c \<in> set ds. is_digit c" and "\<not> is_space (hd ds)"
    and "hd ds \<noteq> CHR ''-''" and "hd ds \<noteq> CHR ''+''"
  shows "parseInt10 (Some ds) = Some (foldl (\<lambda>acc c. acc * 10 + digit_val c) 0 ds)"
proof -
  obtain c r where cr: "ds = c # r" using assms(1) by (cases ds) auto
  have c: "is_digit c" "\<not> is_space c" "c \<noteq> CHR ''-''" "c \<noteq> CHR ''+''"
    using assms cr by simp_all
  have r: "takeWhile is_digit r = r"
    using assms(2) cr by (simp add: takeWhile_eq_all_conv)
  show ?thesis
    using c by (simp add: parseInt10_def Let_def cr r)
qed

lemma parseInt10_negative:
  assumes "ds \<noteq> []" and "\<forall>c \<in> set ds. is_digit c"
  shows "parseInt10 (Some (CHR ''-'' # ds))
           = Some (- foldl (\<lambda>acc c. acc * 10 + digit_val c) 0 ds)"
proof -
  have m: "\<not> is_space CHR ''-''" by (simp add: is_space_def)
  have r: "takeWhile is_digit ds = ds"
    using assms(2) by (simp add: takeWhile_eq_all_conv)
  show ?thesis
    using m assms(1) by (simp add: parseInt10_def Let_def r)
qed

lemma parseInt10_decimal: "parseInt10 (Some (decimal i)) = Some i"
proof (cases "i < 0")
  case True
  then show ?thesis
    using nat_digits_props [of "nat (- i)"]
    by (simp add: decimal_def parseInt10_negative)
next
  case False
  then show ?thesis
    using nat_digits_props [of "nat i"]
    by (simp add: decimal_def parseInt10_unsigned)
qed

lemma split_js_none: "c \<notin> set s \<Longrightarrow> split_js c s = [s]"
  by (induction s) auto

lemma split_js_first: "c \<notin> set xs \<Longrightarrow> split_js c (xs @ c # ys) = xs # split_js c ys"
  by (induction xs) (auto split: list.splits)

lemma slash_notin_decimal: "CHR ''/'' \<notin> set (decimal i)"
  using nat_digits_props [of "nat i"] nat_digits_props [of "nat (- i)"]
  by (auto simp: decimal_def)

lemma parseTimeSignature_decimal:
  assumes "D \<noteq> 0"
  shows "parseTimeSignature (decimal N @ ''/'' @ decimal D) = Some (N, D)"
proof -
  have "split_js CHR ''/'' (decimal N @ ''/'' @ decimal D) = [decimal N, decimal D]"
    using split_js_first [OF slash_notin_decimal, of N "decimal D"]
      split_js_none [OF slash_notin_decimal, of D] by simp
  then show ?thesis
    using assms by (simp add: parseTimeSignature_def parseInt10_decimal)
qed

text \<open>
  Claim C4. For tracks with positive step counts and the signature text \<open>N/D\<close> with
  \<open>D \<noteq> 0\<close>, the cycle length is the least common multiple of the track step counts and
  of \<open>impliedSteps = max(1, N * max(1, floor(16 / D)))\<close>; for step counts 16 and 8 and the
  signature 3/4 it is 48.
\<close>

theorem calculateCycleLength_lcm:
  "((\<forall>track \<in> set tracks. 0 < Track.steps track) \<and> D \<noteq> 0 \<longrightarrow>
      calculateCycleLength tracks (decimal N @ ''/'' @ decimal D)
        = Lcm (insert (max 1 (N * max 1 (16 div D))) (Track.steps ` set tracks)))
   \<and> calculateCycleLength
        [\<lparr>track_id = ''kick'', name = ''Kick'', steps = 16, hits = 4, bias = 1 / 2,
          rotation = 0, volume = 80, muted = False, solo = False, pattern = [],
          color = ''red''\<rparr>,
         \<lparr>track_id = ''snare'', name = ''Snare'', steps = 8, hits = 2, bias = 1 / 2,
          rotation = 0, volume = 80, muted = False, solo = False, pattern = [],
          color = ''blue''\<rparr>] ''3/4'' = 48"
proof (intro conjI impI)
  assume "(\<forall>track \<in> set tracks. 0 < Track.steps track) \<and> D \<noteq> 0"
  then show "calculateCycleLength tracks (decimal N @ ''/'' @ decimal D)
        = Lcm (insert (max 1 (N * max 1 (16 div D))) (Track.steps ` set tracks))"
    using calculateCycleLength_parsed [of tracks _ N D] parseTimeSignature_decimal [of D N]
    by blast
next
  show "calculateCycleLength
        [\<lparr>track_id = ''kick'', name = ''Kick'', steps = 16, hits = 4, bias = 1 / 2,
          rotation = 0, volume = 80, muted = False, solo = False, pattern = [],
          color = ''red''\<rparr>,
         \<lparr>track_id = ''snare'', name = ''Snare'', steps = 8, hits = 2, bias = 1 / 2,
          rotation = 0, volume = 80, muted = False, solo = False, pattern = [],
          color = ''blue''\<rparr>] ''3/4'' = 48"
    by code_simp
qed

theorem calculateCycleLength_lcm_witness:
  "calculateCycleLength
        [\<lparr>track_id = ''kick'', name = ''Kick'', steps = 6, hits = 4, bias = 1 / 2,
          rotation = 0, volume = 80, muted = False, solo = False, pattern = [],
          color = ''red''\<rparr>] ''7/8'' = 42"
proof -
  let ?tracks = "[\<lparr>track_id = ''kick'', name = ''Kick'', steps = 6, hits = 4, bias = 1 / 2,
          rotation = 0, volume = 80, muted = False, solo = False, pattern = [],
          color = ''red''\<rparr>]"
  have d: "decimal 7 @ ''/'' @ decimal 8 = ''7/8''" by code_simp
  have l: "Lcm (insert (max 1 (7 * max 1 (16 div 8))) (Track.steps ` set ?tracks)) = (42::int)"
    by code_simp
  have "calculateCycleLength ?tracks (decimal 7 @ ''/'' @ decimal 8)
          = Lcm (insert (max 1 (7 * max 1 (16 div 8))) (Track.steps ` set ?tracks))"
    using calculateCycleLength_lcm [of ?tracks 8 7] by simp
  then show ?thesis by (simp only: d l)
qed




lemma parseTimeSignature_nbsp: "parseTimeSignature (CHR 0xA0 # ''3/4'') = Some (3, 4)"
  by code_simp




end
